theory Spec2Isabelle
  imports Main "HOL-Library.Multiset" "HOL-Library.Sublist" "HOL-Library.AList"
begin

section \<open>Data model of search.py\<close>

text \<open>
  File paths, keywords and file contents are Python strings. A result dictionary
  (\<^verbatim>\<open>defaultdict(list)\<close>, later \<^verbatim>\<open>dict\<close>) maps a keyword to the list of files it was found
  in. Python dictionaries iterate in insertion order, and \<^verbatim>\<open>merge_results\<close> iterates
  \<^verbatim>\<open>res.items()\<close>, so a dictionary is an association list in insertion order.
\<close>

type_synonym file_path = string
type_synonym keyword = string
type_synonym results = "(keyword \<times> file_path list) list"

text \<open>
  \<^verbatim>\<open>open(file_path, 'r', encoding='utf-8')\<close> followed by \<^verbatim>\<open>f.read()\<close> either returns the whole
  content or raises. The two handlers of the source tell \<^verbatim>\<open>OSError\<close> (missing file,
  permission denied, I/O error) from every other \<^verbatim>\<open>Exception\<close> (a decoding failure is a
  \<^verbatim>\<open>UnicodeDecodeError\<close>, which is not an \<^verbatim>\<open>OSError\<close>). The string is the text of the exception.
\<close>

datatype read_failure = OSError string | OtherException string

type_synonym file_system = "file_path \<Rightarrow> read_failure + string"

text \<open>The two messages the scanner prints: line 45 and line 47 of the source.\<close>

datatype diagnostic = ReadErrorMsg file_path string | UnexpectedErrorMsg file_path string

text \<open>
  What a run can do other than return: \<^verbatim>\<open>lst[i::0]\<close> raises \<^verbatim>\<open>ValueError\<close>,
  \<^verbatim>\<open>file_chunks[i]\<close> out of range raises \<^verbatim>\<open>IndexError\<close>, and \<^verbatim>\<open>queue.get()\<close> on a
  queue that stays empty never returns.
\<close>

datatype failure = ValueError | IndexError | BlocksForever

section \<open>Dictionary operations\<close>

text \<open>\<^verbatim>\<open>d[k]\<close> on a \<^verbatim>\<open>defaultdict(list)\<close>: the stored list, or the empty list for a new key.\<close>

definition dict_get :: "('k \<times> 'v list) list \<Rightarrow> 'k \<Rightarrow> 'v list" where
  "dict_get d k = (case map_of d k of None \<Rightarrow> [] | Some v \<Rightarrow> v)"

text \<open>\<^verbatim>\<open>d[k].append(x)\<close>: an existing key keeps its position, a new key goes last.\<close>

definition dict_append :: "('k \<times> 'v list) list \<Rightarrow> 'k \<Rightarrow> 'v \<Rightarrow> ('k \<times> 'v list) list" where
  "dict_append d k x = AList.update k (dict_get d k @ [x]) d"

text \<open>\<^verbatim>\<open>d[k].extend(xs)\<close>.\<close>

definition dict_extend :: "('k \<times> 'v list) list \<Rightarrow> 'k \<Rightarrow> 'v list \<Rightarrow> ('k \<times> 'v list) list" where
  "dict_extend d k xs = AList.update k (dict_get d k @ xs) d"

section \<open>Scanner: search_keywords_in_files\<close>

text \<open>\<^verbatim>\<open>keyword in content\<close> on strings: the keyword starts at some position of the content.\<close>

fun contains :: "'a list \<Rightarrow> 'a list \<Rightarrow> bool" where
  "contains kw [] = (kw = [])"
| "contains kw (c # cs) = (prefix kw (c # cs) \<or> contains kw cs)"

text \<open>The inner loop \<^verbatim>\<open>for keyword in keywords\<close> (lines 41 to 43) for one file that was read.\<close>

fun scan_content :: "string \<Rightarrow> file_path \<Rightarrow> keyword list \<Rightarrow> results \<Rightarrow> results" where
  "scan_content content file_path [] local_results = local_results"
| "scan_content content file_path (keyword # keywords) local_results =
     scan_content content file_path keywords
       (if contains keyword content then dict_append local_results keyword file_path
        else local_results)"

text \<open>
  The outer loop \<^verbatim>\<open>for file_path in files\<close> (lines 37 to 47). The state is the local
  dictionary and the lines printed so far. A failed read prints one line and goes on
  with the next file.
\<close>

fun scan_files ::
  "file_system \<Rightarrow> keyword list \<Rightarrow> file_path list \<Rightarrow> results \<times> diagnostic list \<Rightarrow>
   results \<times> diagnostic list" where
  "scan_files fs keywords [] st = st"
| "scan_files fs keywords (file_path # files) (local_results, out) =
     (case fs file_path of
        Inr content \<Rightarrow>
          scan_files fs keywords files (scan_content content file_path keywords local_results, out)
      | Inl (OSError e) \<Rightarrow>
          scan_files fs keywords files (local_results, out @ [ReadErrorMsg file_path e])
      | Inl (OtherException e) \<Rightarrow>
          scan_files fs keywords files (local_results, out @ [UnexpectedErrorMsg file_path e]))"

text \<open>
  \<^verbatim>\<open>search_keywords_in_files(files, keywords, result_queue)\<close>: returns the local dictionary
  (both the \<^verbatim>\<open>result_dict\<close> branch and the fall-through return it), the lines printed, and
  the queue after \<^verbatim>\<open>result_queue.put(local_results)\<close> when a queue was passed.
\<close>

definition search_keywords_in_files ::
  "file_system \<Rightarrow> file_path list \<Rightarrow> keyword list \<Rightarrow> results list option \<Rightarrow>
   results \<times> diagnostic list \<times> results list option" where
  "search_keywords_in_files fs files keywords result_queue =
     (case scan_files fs keywords files ([], []) of
        (local_results, out) \<Rightarrow>
          (local_results, out, map_option (\<lambda>q. q @ [local_results]) result_queue))"

section \<open>Aggregator: merge_results\<close>

text \<open>\<^verbatim>\<open>for key, paths in res.items(): final_dict[key].extend(paths)\<close>.\<close>

fun merge_items :: "results \<Rightarrow> results \<Rightarrow> results" where
  "merge_items [] final_dict = final_dict"
| "merge_items ((key, paths) # items) final_dict =
     merge_items items (dict_extend final_dict key paths)"

text \<open>\<^verbatim>\<open>for res in results_list\<close>, starting from the empty dictionary.\<close>

definition merge_results :: "results list \<Rightarrow> results" where
  "merge_results results_list = fold merge_items results_list []"

section \<open>Partitioner: chunkify\<close>

text \<open>\<^verbatim>\<open>xs[0::n]\<close> for a step \<open>n \<ge> 1\<close>: the first element, then every \<open>n\<close>-th after it.\<close>

fun stride :: "nat \<Rightarrow> 'a list \<Rightarrow> 'a list" where
  "stride n [] = []"
| "stride n (x # xs) = x # stride n (drop (n - 1) xs)"

text \<open>
  \<^verbatim>\<open>lst[i::n]\<close> for a start \<open>i \<ge> 0\<close>. A zero step raises; a negative step walks backwards
  from index \<open>min i (len - 1)\<close>.
\<close>

definition slice_from_step :: "'a list \<Rightarrow> nat \<Rightarrow> int \<Rightarrow> failure + 'a list" where
  "slice_from_step lst i n =
     (if n = 0 then Inl ValueError
      else if 0 < n then Inr (stride (nat n) (drop i lst))
      else Inr (stride (nat (- n)) (rev (take (Suc i) lst))))"

text \<open>\<^verbatim>\<open>range(n)\<close>: empty when \<open>n \<le> 0\<close>.\<close>

definition py_range :: "int \<Rightarrow> nat list" where
  "py_range n = [0..<nat n]"

text \<open>The list comprehension \<^verbatim>\<open>[lst[i::n] for i in ...]\<close>, stopping at the first exception.\<close>

fun chunk_loop :: "'a list \<Rightarrow> int \<Rightarrow> nat list \<Rightarrow> failure + 'a list list" where
  "chunk_loop lst n [] = Inr []"
| "chunk_loop lst n (i # is) =
     (case slice_from_step lst i n of
        Inl e \<Rightarrow> Inl e
      | Inr c \<Rightarrow> (case chunk_loop lst n is of Inl e \<Rightarrow> Inl e | Inr cs \<Rightarrow> Inr (c # cs)))"

definition chunkify :: "'a list \<Rightarrow> int \<Rightarrow> failure + 'a list list" where
  "chunkify lst n = chunk_loop lst n (py_range n)"

section \<open>Worker pool\<close>

text \<open>
  The spawning loop of both strategies (lines 86 to 91 and 116 to 121): for each \<open>i\<close> of
  \<^verbatim>\<open>range(num_workers)\<close>, an empty \<^verbatim>\<open>file_chunks[i]\<close> is skipped, and otherwise a worker is
  created on that chunk and started. The result is the chunks of the started workers in
  spawn order.
\<close>

fun spawn_loop :: "'a list list \<Rightarrow> nat list \<Rightarrow> 'a list list \<Rightarrow> failure + 'a list list" where
  "spawn_loop file_chunks [] workers = Inr workers"
| "spawn_loop file_chunks (i # is) workers =
     (if i < length file_chunks
      then (if file_chunks ! i = [] then spawn_loop file_chunks is workers
            else spawn_loop file_chunks is (workers @ [file_chunks ! i]))
      else Inl IndexError)"

definition spawn_workers :: "'a list \<Rightarrow> int \<Rightarrow> failure + 'a list list" where
  "spawn_workers files num_workers =
     (case chunkify files num_workers of
        Inl e \<Rightarrow> Inl e
      | Inr file_chunks \<Rightarrow> spawn_loop file_chunks (py_range num_workers) [])"

text \<open>
  The started workers run concurrently, and the order in which they deliver their results
  is not determined by the program. A run takes the scheduler's choices as a list of
  picks: each pick selects, among the workers still running, the next one to deliver
  (modulo their number, so that every list of picks is a schedule). Without picks the
  workers deliver in spawn order.
\<close>

fun completion_order :: "nat list \<Rightarrow> 'a list \<Rightarrow> 'a list" where
  "completion_order [] ws = ws"
| "completion_order (p # ps) [] = []"
| "completion_order (p # ps) (w # ws) =
     (let i = p mod length (w # ws)
      in ((w # ws) ! i) # completion_order ps (take i (w # ws) @ drop (Suc i) (w # ws)))"

subsection \<open>Threads\<close>

text \<open>\<^verbatim>\<open>thread_worker\<close> (lines 82 to 84): scan the chunk and append the result to the shared list.\<close>

definition thread_worker ::
  "file_system \<Rightarrow> file_path list \<Rightarrow> keyword list \<Rightarrow> results list \<Rightarrow>
   results list \<times> diagnostic list" where
  "thread_worker fs files_chunk keys res_list =
     (case search_keywords_in_files fs files_chunk keys None of
        (res, out, _) \<Rightarrow> (res_list @ [res], out))"

text \<open>
  The threads in the order they deliver. The lines they print interleave on one output
  stream in an order the program does not fix, so the run keeps them as a multiset.
\<close>

fun run_threads ::
  "file_system \<Rightarrow> keyword list \<Rightarrow> file_path list list \<Rightarrow>
   results list \<times> diagnostic multiset \<Rightarrow> results list \<times> diagnostic multiset" where
  "run_threads fs keys [] st = st"
| "run_threads fs keys (files_chunk # chunks) (res_list, printed) =
     (case thread_worker fs files_chunk keys res_list of
        (res_list', out) \<Rightarrow> run_threads fs keys chunks (res_list', printed + mset out))"

definition run_threading ::
  "file_system \<Rightarrow> file_path list \<Rightarrow> keyword list \<Rightarrow> int \<Rightarrow> nat list \<Rightarrow>
   failure + results \<times> diagnostic multiset" where
  "run_threading fs files keywords num_threads picks =
     (case spawn_workers files num_threads of
        Inl e \<Rightarrow> Inl e
      | Inr threads \<Rightarrow>
          (case run_threads fs keywords (completion_order picks threads) ([], {#}) of
             (results, printed) \<Rightarrow> Inr (merge_results results, printed)))"

subsection \<open>Processes\<close>

text \<open>\<^verbatim>\<open>process_worker\<close> (lines 104 to 106): scan the chunk with the queue passed on.\<close>

definition process_worker ::
  "file_system \<Rightarrow> file_path list \<Rightarrow> keyword list \<Rightarrow> results list \<Rightarrow>
   results list \<times> diagnostic list" where
  "process_worker fs files keywords queue =
     (case search_keywords_in_files fs files keywords (Some queue) of
        (_, out, Some queue') \<Rightarrow> (queue', out)
      | (_, out, None) \<Rightarrow> (queue, out))"

fun run_processes ::
  "file_system \<Rightarrow> keyword list \<Rightarrow> file_path list list \<Rightarrow>
   results list \<times> diagnostic multiset \<Rightarrow> results list \<times> diagnostic multiset" where
  "run_processes fs keywords [] st = st"
| "run_processes fs keywords (files # chunks) (queue, printed) =
     (case process_worker fs files keywords queue of
        (queue', out) \<Rightarrow> run_processes fs keywords chunks (queue', printed + mset out))"

text \<open>
  The collecting loop (lines 124 to 126): \<^verbatim>\<open>queue.get()\<close> once per started process. The
  queue is first in, first out; a \<^verbatim>\<open>get\<close> on a queue that no process will fill blocks for
  ever. The result is the collected list and what is left in the queue.
\<close>

fun drain :: "nat \<Rightarrow> 'a list \<Rightarrow> 'a list \<Rightarrow> failure + 'a list \<times> 'a list" where
  "drain 0 queue results_list = Inr (results_list, queue)"
| "drain (Suc k) [] results_list = Inl BlocksForever"
| "drain (Suc k) (m # queue) results_list = drain k queue (results_list @ [m])"

definition run_multiprocessing ::
  "file_system \<Rightarrow> file_path list \<Rightarrow> keyword list \<Rightarrow> int \<Rightarrow> nat list \<Rightarrow>
   failure + results \<times> diagnostic multiset" where
  "run_multiprocessing fs files keywords num_processes picks =
     (case spawn_workers files num_processes of
        Inl e \<Rightarrow> Inl e
      | Inr processes \<Rightarrow>
          (case run_processes fs keywords (completion_order picks processes) ([], {#}) of
             (queue, printed) \<Rightarrow>
               (case drain (length processes) queue [] of
                  Inl e \<Rightarrow> Inl e
                | Inr (results_list, _) \<Rightarrow> Inr (merge_results results_list, printed))))"

section \<open>Notions used to state the properties\<close>

text \<open>The keys of a dictionary.\<close>

definition dict_keys :: "('k \<times> 'v) list \<Rightarrow> 'k set" where
  "dict_keys d = set (map fst d)"

text \<open>
  What scanning one file appends under keyword \<open>k\<close>: the file once for each occurrence of
  \<open>k\<close> in the keyword list, when the file was read and contains \<open>k\<close>.
\<close>

definition file_hits :: "file_system \<Rightarrow> keyword list \<Rightarrow> keyword \<Rightarrow> file_path \<Rightarrow> file_path list" where
  "file_hits fs keywords k file_path =
     (case fs file_path of
        Inr content \<Rightarrow> map (\<lambda>_. file_path) (filter (\<lambda>kw. kw = k \<and> contains kw content) keywords)
      | Inl _ \<Rightarrow> [])"

text \<open>The line printed for one file: none when it was read.\<close>

definition file_diag :: "file_system \<Rightarrow> file_path \<Rightarrow> diagnostic list" where
  "file_diag fs file_path =
     (case fs file_path of
        Inr _ \<Rightarrow> []
      | Inl (OSError e) \<Rightarrow> [ReadErrorMsg file_path e]
      | Inl (OtherException e) \<Rightarrow> [UnexpectedErrorMsg file_path e])"

text \<open>The dictionary a worker computes for its chunk, and the lines it prints.\<close>

definition partial_result :: "file_system \<Rightarrow> keyword list \<Rightarrow> file_path list \<Rightarrow> results" where
  "partial_result fs keywords files = fst (search_keywords_in_files fs files keywords None)"

definition partial_diags :: "file_system \<Rightarrow> keyword list \<Rightarrow> file_path list \<Rightarrow> diagnostic list" where
  "partial_diags fs keywords files = fst (snd (search_keywords_in_files fs files keywords None))"

text \<open>A true match: the file was read and its content contains the keyword.\<close>

definition matches :: "file_system \<Rightarrow> keyword \<Rightarrow> file_path \<Rightarrow> bool" where
  "matches fs k file_path = (case fs file_path of Inr content \<Rightarrow> contains k content | Inl _ \<Rightarrow> False)"

text \<open>
  The two strategies expose the same entry point; \<open>run\<close> selects \<^verbatim>\<open>run_threading\<close> or
  \<^verbatim>\<open>run_multiprocessing\<close>.
\<close>

datatype strategy = Threads | Processes

definition run ::
  "strategy \<Rightarrow> file_system \<Rightarrow> file_path list \<Rightarrow> keyword list \<Rightarrow> int \<Rightarrow> nat list \<Rightarrow>
   failure + results \<times> diagnostic multiset" where
  "run s fs files keywords num_workers picks =
     (case s of
        Threads \<Rightarrow> run_threading fs files keywords num_workers picks
      | Processes \<Rightarrow> run_multiprocessing fs files keywords num_workers picks)"

text \<open>The line printed for a file whose read failed with \<open>e\<close>.\<close>

definition failure_diag :: "file_path \<Rightarrow> read_failure \<Rightarrow> diagnostic" where
  "failure_diag file_path e =
     (case e of OSError m \<Rightarrow> ReadErrorMsg file_path m
              | OtherException m \<Rightarrow> UnexpectedErrorMsg file_path m)"

text \<open>The three files and three keywords of the concrete scenario; every other path is missing.\<close>

definition scenario_fs :: file_system where
  "scenario_fs p =
     (if p = ''f1.txt'' then Inr ''apple pie''
      else if p = ''f2.txt'' then Inr ''banana split''
      else if p = ''f3.txt'' then Inr ''apple banana''
      else Inl (OSError ''No such file or directory''))"

definition scenario_files :: "file_path list" where
  "scenario_files = [''f1.txt'', ''f2.txt'', ''f3.txt'']"

definition scenario_keywords :: "keyword list" where
  "scenario_keywords = [''apple'', ''banana'', ''kiwi'']"

text \<open>The (keyword, file) pairs of a dictionary, with multiplicity.\<close>

definition dict_pairs :: "('k \<times> 'v list) list \<Rightarrow> ('k \<times> 'v) list" where
  "dict_pairs d = concat (map (\<lambda>(k, vs). map (Pair k) vs) d)"

section \<open>Dictionaries and the scanner\<close>

lemma dict_keys_Nil: "dict_keys [] = {}"
  by (simp add: dict_keys_def)

lemma dict_keys_Cons: "dict_keys ((k, v) # d) = insert k (dict_keys d)"
  by (simp add: dict_keys_def)

lemma contains_iff_sublist: "contains kw c \<longleftrightarrow> sublist kw c"
  by (induction c) (auto simp: sublist_Cons_right)

lemma contains_iff: "contains kw c \<longleftrightarrow> (\<exists>pre suf. c = pre @ kw @ suf)"
  by (simp add: contains_iff_sublist sublist_def)

lemma dict_get_no_key: "k \<notin> dict_keys d \<Longrightarrow> dict_get d k = []"
proof -
  assume "k \<notin> dict_keys d"
  then have "map_of d k = None"
    by (simp add: dict_keys_def map_of_eq_None_iff)
  then show ?thesis by (simp add: dict_get_def)
qed

lemma dict_get_dict_extend:
  "dict_get (dict_extend d k xs) k' = (if k' = k then dict_get d k @ xs else dict_get d k')"
  by (simp add: dict_extend_def dict_get_def update_conv')

lemma dict_get_dict_append:
  "dict_get (dict_append d k x) k' = (if k' = k then dict_get d k @ [x] else dict_get d k')"
  by (simp add: dict_append_def dict_get_def update_conv')

lemma keys_update: "dict_keys (AList.update k v d) = insert k (dict_keys d)"
  by (auto simp: dict_keys_def update_keys)

lemma keys_dict_extend: "dict_keys (dict_extend d k xs) = insert k (dict_keys d)"
  by (simp add: dict_extend_def keys_update)

lemma keys_dict_append: "dict_keys (dict_append d k x) = insert k (dict_keys d)"
  by (simp add: dict_append_def keys_update)

lemma distinct_dict_extend: "distinct (map fst (dict_extend d k xs)) = distinct (map fst d)"
  by (auto simp: dict_extend_def update_keys)

lemma distinct_dict_append: "distinct (map fst (dict_append d k x)) = distinct (map fst d)"
  by (auto simp: dict_append_def update_keys)

lemma dict_get_scan_content:
  "dict_get (scan_content content fp kws d) k =
     dict_get d k @ map (\<lambda>_. fp) (filter (\<lambda>kw. kw = k \<and> contains kw content) kws)"
  by (induction kws arbitrary: d) (simp_all add: dict_get_dict_append)

lemma keys_scan_content:
  "k \<in> dict_keys (scan_content content fp kws d) \<longleftrightarrow>
     k \<in> dict_keys d \<or> (k \<in> set kws \<and> contains k content)"
  by (induction kws arbitrary: d) (auto simp: keys_dict_append)

lemma distinct_scan_content:
  "distinct (map fst (scan_content content fp kws d)) = distinct (map fst d)"
  by (induction kws arbitrary: d) (simp_all add: distinct_dict_append)

lemma scan_files_step:
  "scan_files fs kws (fp # files) (d, out) =
     scan_files fs kws files
       (case fs fp of Inr content \<Rightarrow> scan_content content fp kws d | Inl _ \<Rightarrow> d,
        out @ file_diag fs fp)"
  by (simp add: file_diag_def split: sum.split read_failure.split)

lemma file_hits_Inr:
  "fs fp = Inr content \<Longrightarrow>
   file_hits fs kws k fp = map (\<lambda>_. fp) (filter (\<lambda>kw. kw = k \<and> contains kw content) kws)"
  by (simp add: file_hits_def)

lemma file_hits_Inl: "fs fp = Inl e \<Longrightarrow> file_hits fs kws k fp = []"
  by (simp add: file_hits_def)

lemma dict_get_scan_files:
  "dict_get (fst (scan_files fs kws files (d, out))) k =
     dict_get d k @ concat (map (file_hits fs kws k) files)"
proof (induction files arbitrary: d out)
  case Nil
  show ?case by simp
next
  case (Cons fp files)
  show ?case
    unfolding scan_files_step Cons.IH
    by (cases "fs fp") (simp_all add: file_hits_Inr file_hits_Inl dict_get_scan_content)
qed

lemma distinct_scan_files:
  "distinct (map fst (fst (scan_files fs kws files (d, out)))) = distinct (map fst d)"
proof (induction files arbitrary: d out)
  case Nil
  show ?case by simp
next
  case (Cons fp files)
  show ?case
    unfolding scan_files_step Cons.IH
    by (cases "fs fp") (simp_all add: distinct_scan_content)
qed

lemma keys_scan_files:
  "k \<in> dict_keys (fst (scan_files fs kws files (d, out))) \<longleftrightarrow>
     k \<in> dict_keys d \<or> concat (map (file_hits fs kws k) files) \<noteq> []"
proof (induction files arbitrary: d out)
  case Nil
  show ?case by simp
next
  case (Cons fp files)
  show ?case
    unfolding scan_files_step Cons.IH
    by (cases "fs fp") (auto simp: keys_scan_content file_hits_Inr file_hits_Inl filter_empty_conv)
qed

lemma snd_scan_files:
  "snd (scan_files fs kws files (d, out)) = out @ concat (map (file_diag fs) files)"
proof (induction files arbitrary: d out)
  case Nil
  show ?case by simp
next
  case (Cons fp files)
  show ?case
    unfolding scan_files_step Cons.IH by simp
qed

lemma dict_get_merge_items:
  "distinct (map fst res) \<Longrightarrow>
   dict_get (merge_items res final) k = dict_get final k @ dict_get res k"
proof (induction res arbitrary: final)
  case Nil
  show ?case by (simp add: dict_get_def)
next
  case (Cons p items)
  obtain key paths where p: "p = (key, paths)" by (cases p)
  from Cons.prems p have nk: "key \<notin> dict_keys items" and d: "distinct (map fst items)"
    by (simp_all add: dict_keys_def)
  have "dict_get (p # items) k = (if k = key then paths else dict_get items k)"
    by (simp add: p dict_get_def)
  with Cons.IH[OF d] nk show ?case
    by (simp add: p dict_get_dict_extend dict_get_no_key)
qed

lemma keys_merge_items: "dict_keys (merge_items res final) = dict_keys final \<union> dict_keys res"
proof (induction res arbitrary: final)
  case Nil
  show ?case by (simp add: dict_keys_Nil)
next
  case (Cons p items)
  obtain key paths where p: "p = (key, paths)" by (cases p)
  show ?case
    by (simp add: p Cons.IH keys_dict_extend dict_keys_Cons)
qed

lemma distinct_merge_items:
  "distinct (map fst (merge_items res final)) = distinct (map fst final)"
proof (induction res arbitrary: final)
  case Nil
  show ?case by simp
next
  case (Cons p items)
  obtain key paths where p: "p = (key, paths)" by (cases p)
  show ?case
    by (simp add: p Cons.IH distinct_dict_extend)
qed

lemma dict_get_fold_merge:
  "\<forall>r\<in>set rs. distinct (map fst r) \<Longrightarrow>
   dict_get (fold merge_items rs final) k = dict_get final k @ concat (map (\<lambda>r. dict_get r k) rs)"
  by (induction rs arbitrary: final) (simp_all add: dict_get_merge_items)

lemma keys_fold_merge:
  "dict_keys (fold merge_items rs final) = dict_keys final \<union> (\<Union>r\<in>set rs. dict_keys r)"
  by (induction rs arbitrary: final) (simp_all add: keys_merge_items Un_assoc)

lemma distinct_fold_merge:
  "distinct (map fst (fold merge_items rs final)) = distinct (map fst final)"
  by (induction rs arbitrary: final) (simp_all add: distinct_merge_items)

section \<open>Partitions, spawning and delivery order\<close>

lemma Suc_mod_eq_0: "0 < n \<Longrightarrow> (Suc i mod n = 0) = (i mod n = n - 1)"
  by (cases "Suc (i mod n) = n") (auto simp: mod_Suc)

lemma Suc_mod_eq_Suc: "Suc j < n \<Longrightarrow> (Suc i mod n = Suc j) = (i mod n = j)"
  by (cases "Suc (i mod n) = n") (auto simp: mod_Suc)

lemma stride_drop_nths: "j < n \<Longrightarrow> stride n (drop j xs) = nths xs {i. i mod n = j}"
proof (induction xs arbitrary: j)
  case Nil
  show ?case by simp
next
  case (Cons x xs)
  show ?case
  proof (cases j)
    case 0
    with Cons.prems have n: "0 < n" by simp
    then have "n - 1 < n" by simp
    from Cons.IH[OF this] n 0 show ?thesis
      by (simp add: nths_Cons Suc_mod_eq_0)
  next
    case (Suc j')
    with Cons.prems have lt: "Suc j' < n" by simp
    then have "j' < n" by simp
    from Cons.IH[OF this] lt Suc show ?thesis
      by (simp add: nths_Cons Suc_mod_eq_Suc)
  qed
qed

lemma sum_round_robin:
  "0 < n \<Longrightarrow> (\<Sum>j = 0..<n. mset (nths xs {i. i mod n = j})) = mset xs"
proof (induction xs rule: rev_induct)
  case Nil
  show ?case by simp
next
  case (snoc x xs)
  have "(\<Sum>j = 0..<n. mset (nths (xs @ [x]) {i. i mod n = j})) =
        (\<Sum>j = 0..<n. mset (nths xs {i. i mod n = j}) +
                        (if j = length xs mod n then {#x#} else {#}))"
    by (rule sum.cong) (auto simp: nths_append)
  also have "\<dots> = mset xs + (\<Sum>j = 0..<n. if j = length xs mod n then {#x#} else {#})"
    by (simp add: sum.distrib snoc)
  also have "(\<Sum>j = 0..<n. if j = length xs mod n then {#x#} else {#}) = {#x#}"
    using snoc.prems by (simp add: sum.delta')
  finally show ?case by simp
qed

lemma mset_concat_round_robin:
  "0 < n \<Longrightarrow> mset (concat (map (\<lambda>j. nths xs {i. i mod n = j}) [0..<n])) = mset xs"
proof -
  assume n: "0 < n"
  have "mset (concat (map (\<lambda>j. nths xs {i. i mod n = j}) [0..<n])) =
        (\<Sum>j\<leftarrow>[0..<n]. mset (nths xs {i. i mod n = j}))"
    by (simp add: mset_concat comp_def)
  also have "\<dots> = (\<Sum>j = 0..<n. mset (nths xs {i. i mod n = j}))"
    by (simp add: interv_sum_list_conv_sum_set_nat)
  finally show ?thesis by (simp add: sum_round_robin[OF n])
qed

lemma chunk_loop_pos:
  "0 < n \<Longrightarrow> chunk_loop lst n js = Inr (map (\<lambda>j. stride (nat n) (drop j lst)) js)"
  by (induction js) (simp_all add: slice_from_step_def)

lemma chunkify_pos:
  "0 < n \<Longrightarrow> chunkify lst n = Inr (map (\<lambda>j. nths lst {i. i mod nat n = j}) [0..<nat n])"
  by (simp add: chunkify_def py_range_def chunk_loop_pos stride_drop_nths)

lemma chunkify_nonpos: "n \<le> 0 \<Longrightarrow> chunkify lst n = Inr []"
  by (simp add: chunkify_def py_range_def)

lemma spawn_loop_filter:
  "\<forall>i\<in>set js. i < length file_chunks \<Longrightarrow>
   spawn_loop file_chunks js workers =
     Inr (workers @ filter (\<lambda>c. c \<noteq> []) (map (\<lambda>i. file_chunks ! i) js))"
  by (induction js arbitrary: workers) simp_all

lemma spawn_loop_all:
  "spawn_loop file_chunks [0..<length file_chunks] [] = Inr (filter (\<lambda>c. c \<noteq> []) file_chunks)"
  by (simp add: spawn_loop_filter map_nth)

lemma spawn_workers_pos:
  "0 < n \<Longrightarrow>
   spawn_workers files n =
     Inr (filter (\<lambda>c. c \<noteq> []) (map (\<lambda>j. nths files {i. i mod nat n = j}) [0..<nat n]))"
  using spawn_loop_all[of "map (\<lambda>j. nths files {i. i mod nat n = j}) [0..<nat n]"]
  by (simp add: spawn_workers_def chunkify_pos py_range_def)

lemma spawn_workers_nonpos: "n \<le> 0 \<Longrightarrow> spawn_workers files n = Inr []"
  by (simp add: spawn_workers_def chunkify_nonpos py_range_def)

lemma concat_filter_nonempty: "concat (filter (\<lambda>c. c \<noteq> []) cs) = concat cs"
  by (induction cs) simp_all

lemma mset_concat_spawned:
  "0 < n \<Longrightarrow> spawn_workers files n = Inr workers \<Longrightarrow> mset (concat workers) = mset files"
  using mset_concat_round_robin[of "nat n" files]
  by (auto simp: spawn_workers_pos concat_filter_nonempty)

lemma remove_nth_mset:
  "i < length ws \<Longrightarrow> add_mset (ws ! i) (mset (take i ws @ drop (Suc i) ws)) = mset ws"
proof -
  assume "i < length ws"
  then have "ws = take i ws @ ws ! i # drop (Suc i) ws"
    by (rule id_take_nth_drop)
  then have "mset ws = mset (take i ws @ ws ! i # drop (Suc i) ws)"
    by simp
  then show ?thesis by simp
qed

lemma completion_order_Cons:
  "ws \<noteq> [] \<Longrightarrow>
   completion_order (p # ps) ws =
     ws ! (p mod length ws) #
     completion_order ps (take (p mod length ws) ws @ drop (Suc (p mod length ws)) ws)"
  by (cases ws) (simp_all add: Let_def)

lemma mset_completion_order: "mset (completion_order picks ws) = mset ws"
proof (induction picks arbitrary: ws)
  case Nil
  show ?case by simp
next
  case (Cons p ps)
  show ?case
  proof (cases "ws = []")
    case True
    then show ?thesis by simp
  next
    case False
    then have "p mod length ws < length ws" by simp
    from remove_nth_mset[OF this] show ?thesis
      by (simp add: completion_order_Cons[OF False] Cons.IH)
  qed
qed

lemma completion_order_map:
  "completion_order picks (map f ws) = map f (completion_order picks ws)"
proof (induction picks arbitrary: ws)
  case Nil
  show ?case by simp
next
  case (Cons p ps)
  show ?case
  proof (cases "ws = []")
    case True
    then show ?thesis by simp
  next
    case False
    then have lt: "p mod length ws < length ws" by simp
    from False have ne: "map f ws \<noteq> []" by simp
    have "take (p mod length ws) (map f ws) @ drop (Suc (p mod length ws)) (map f ws) =
          map f (take (p mod length ws) ws @ drop (Suc (p mod length ws)) ws)"
      by (simp add: take_map drop_map)
    with lt show ?thesis
      by (simp add: completion_order_Cons[OF False] completion_order_Cons[OF ne] Cons.IH
               del: map_append)
  qed
qed

lemma completion_order_reaches:
  "mset rs = mset ws \<Longrightarrow> \<exists>picks. completion_order picks ws = rs"
proof (induction rs arbitrary: ws)
  case Nil
  then have "ws = []" by simp
  then have "completion_order [] ws = []" by simp
  then show ?case by blast
next
  case (Cons r rs)
  then have "r \<in> set ws" by (metis list.set_intros(1) set_mset_mset)
  then obtain i where i: "i < length ws" "ws ! i = r"
    by (auto simp: in_set_conv_nth)
  let ?ws' = "take i ws @ drop (Suc i) ws"
  from remove_nth_mset[OF i(1)] Cons.prems i(2)
  have "add_mset r (mset rs) = add_mset r (mset ?ws')"
    by simp
  then have "mset rs = mset ?ws'" by simp
  from Cons.IH[OF this] obtain ps where ps: "completion_order ps ?ws' = rs" by blast
  from i have ne: "ws \<noteq> []" by auto
  from i have "i mod length ws = i" by simp
  with i ps have "completion_order (i # ps) ws = r # rs"
    by (simp add: completion_order_Cons[OF ne])
  then show ?case by blast
qed

lemma nth_stride:
  "0 < n \<Longrightarrow> m * n < length xs \<Longrightarrow> m < length (stride n xs) \<and> stride n xs ! m = xs ! (m * n)"
proof (induction n xs arbitrary: m rule: stride.induct)
  case (1 n)
  then show ?case by simp
next
  case (2 n x xs)
  show ?case
  proof (cases m)
    case 0
    then show ?thesis by simp
  next
    case (Suc m')
    with 2(3) have lt: "m' * n < length (drop (n - 1) xs)" using 2(2) by simp
    from 2(1)[OF 2(2) lt] Suc 2(2) 2(3) show ?thesis
      by (simp add: add.commute)
  qed
qed

lemma nth_round_robin:
  assumes "0 < n" and "i < length xs"
  shows "i div n < length (nths xs {k. k mod n = i mod n}) \<and>
         nths xs {k. k mod n = i mod n} ! (i div n) = xs ! i"
proof -
  have j: "i mod n < n" using assms(1) by simp
  have "i div n * n + i mod n = i" by simp
  with assms(2) have "i div n * n + i mod n < length xs" by simp
  then have lt: "i div n * n < length (drop (i mod n) xs)"
    by (simp add: less_diff_conv)
  have "i mod n \<le> i" by simp
  with assms(2) have le: "i mod n \<le> length xs" by linarith
  have "drop (i mod n) xs ! (i div n * n) = xs ! (i mod n + i div n * n)"
    using le by simp
  also have "i mod n + i div n * n = i" by simp
  finally have "drop (i mod n) xs ! (i div n * n) = xs ! i" .
  with nth_stride[OF assms(1) lt] show ?thesis
    by (simp add: stride_drop_nths[OF j])
qed

section \<open>What a run computes\<close>

lemma search_keywords_in_files_eq:
  "search_keywords_in_files fs files kws q =
     (partial_result fs kws files, partial_diags fs kws files,
      map_option (\<lambda>q. q @ [partial_result fs kws files]) q)"
  by (simp add: partial_result_def partial_diags_def search_keywords_in_files_def
           split: prod.split)

lemma partial_result_scan:
  "partial_result fs kws files = fst (scan_files fs kws files ([], []))"
  by (simp add: partial_result_def search_keywords_in_files_def split: prod.split)

lemma partial_diags_scan:
  "partial_diags fs kws files = snd (scan_files fs kws files ([], []))"
  by (simp add: partial_diags_def search_keywords_in_files_def split: prod.split)

lemma dict_get_Nil: "dict_get [] k = []"
  by (simp add: dict_get_def)

lemma dict_get_partial_result:
  "dict_get (partial_result fs kws files) k = concat (map (file_hits fs kws k) files)"
  by (simp add: partial_result_scan dict_get_scan_files dict_get_Nil)

lemma distinct_partial_result: "distinct (map fst (partial_result fs kws files))"
  by (simp add: partial_result_scan distinct_scan_files)

lemma keys_partial_result:
  "k \<in> dict_keys (partial_result fs kws files) \<longleftrightarrow> concat (map (file_hits fs kws k) files) \<noteq> []"
  by (simp add: partial_result_scan keys_scan_files dict_keys_Nil)

lemma partial_diags_eq: "partial_diags fs kws files = concat (map (file_diag fs) files)"
  by (simp add: partial_diags_scan snd_scan_files)

lemma thread_worker_eq:
  "thread_worker fs c kws res_list = (res_list @ [partial_result fs kws c], partial_diags fs kws c)"
  by (simp add: thread_worker_def search_keywords_in_files_eq)

lemma process_worker_eq:
  "process_worker fs c kws queue = (queue @ [partial_result fs kws c], partial_diags fs kws c)"
  by (simp add: process_worker_def search_keywords_in_files_eq)

lemma run_threads_eq:
  "run_threads fs kws cs (res_list, printed) =
     (res_list @ map (partial_result fs kws) cs,
      printed + mset (concat (map (partial_diags fs kws) cs)))"
  by (induction cs arbitrary: res_list printed) (simp_all add: thread_worker_eq)

lemma run_processes_eq:
  "run_processes fs kws cs (queue, printed) =
     (queue @ map (partial_result fs kws) cs,
      printed + mset (concat (map (partial_diags fs kws) cs)))"
  by (induction cs arbitrary: queue printed) (simp_all add: process_worker_eq)

lemma drain_all: "drain (length queue) queue results_list = Inr (results_list @ queue, [])"
  by (induction queue arbitrary: results_list) simp_all

lemma length_completion_order: "length (completion_order picks ws) = length ws"
  using mset_completion_order[of picks ws] by (rule mset_eq_length)

lemma run_threading_eq:
  "run_threading fs files kws n picks =
     (case spawn_workers files n of
        Inl e \<Rightarrow> Inl e
      | Inr ws \<Rightarrow>
          Inr (merge_results (map (partial_result fs kws) (completion_order picks ws)),
               mset (concat (map (partial_diags fs kws) (completion_order picks ws)))))"
  by (simp add: run_threading_def run_threads_eq split: sum.split)

lemma run_multiprocessing_eq:
  "run_multiprocessing fs files kws n picks =
     (case spawn_workers files n of
        Inl e \<Rightarrow> Inl e
      | Inr ws \<Rightarrow>
          Inr (merge_results (map (partial_result fs kws) (completion_order picks ws)),
               mset (concat (map (partial_diags fs kws) (completion_order picks ws)))))"
proof (cases "spawn_workers files n")
  case (Inl e)
  then show ?thesis by (simp add: run_multiprocessing_def)
next
  case (Inr ws)
  have "drain (length ws) (map (partial_result fs kws) (completion_order picks ws)) [] =
        Inr (map (partial_result fs kws) (completion_order picks ws), [])"
    using drain_all[of "map (partial_result fs kws) (completion_order picks ws)" "[]"]
    by (simp add: length_completion_order)
  with Inr show ?thesis
    by (simp add: run_multiprocessing_def run_processes_eq)
qed

lemma dict_get_merge_results:
  "\<forall>r\<in>set rs. distinct (map fst r) \<Longrightarrow>
   dict_get (merge_results rs) k = concat (map (\<lambda>r. dict_get r k) rs)"
  by (simp add: merge_results_def dict_get_fold_merge dict_get_Nil)

lemma keys_merge_results: "dict_keys (merge_results rs) = (\<Union>r\<in>set rs. dict_keys r)"
  by (simp add: merge_results_def keys_fold_merge dict_keys_Nil)

lemma distinct_merge_results: "distinct (map fst (merge_results rs))"
  by (simp add: merge_results_def distinct_fold_merge)

lemma concat_map_concat: "concat (map (\<lambda>c. concat (map g c)) cs) = concat (map g (concat cs))"
  by (induction cs) simp_all

lemma dict_get_pool:
  "dict_get (merge_results (map (partial_result fs kws) cs)) k =
     concat (map (file_hits fs kws k) (concat cs))"
proof -
  have "\<forall>r\<in>set (map (partial_result fs kws) cs). distinct (map fst r)"
    by (simp add: distinct_partial_result)
  from dict_get_merge_results[OF this] show ?thesis
    by (simp add: comp_def dict_get_partial_result concat_map_concat)
qed

lemma keys_pool:
  "k \<in> dict_keys (merge_results (map (partial_result fs kws) cs)) \<longleftrightarrow>
     concat (map (file_hits fs kws k) (concat cs)) \<noteq> []"
  by (induction cs) (simp_all add: keys_merge_results keys_partial_result)

lemma diags_pool:
  "concat (map (partial_diags fs kws) cs) = concat (map (file_diag fs) (concat cs))"
  by (induction cs) (simp_all add: partial_diags_eq)

lemma mset_concat_map: "mset (concat (map g xs)) = (\<Sum>x\<in>#mset xs. mset (g x))"
  by (induction xs) simp_all

lemma mset_concat_map_cong:
  "mset xs = mset ys \<Longrightarrow> mset (concat (map g xs)) = mset (concat (map g ys))"
  by (simp add: mset_concat_map)

lemma mset_concat_cong: "mset xs = mset ys \<Longrightarrow> mset (concat xs) = mset (concat ys)"
  using mset_concat_map_cong[of xs ys "\<lambda>x. x"] by simp

lemma mset_eq_Nil_iff: "mset xs = mset ys \<Longrightarrow> (xs = []) = (ys = [])"
  by (metis mset_zero_iff)

lemma mset_concat_delivered:
  assumes "0 < n" and "spawn_workers files n = Inr ws"
  shows "mset (concat (completion_order picks ws)) = mset files"
proof -
  have "mset (concat (completion_order picks ws)) = mset (concat ws)"
    by (rule mset_concat_cong) (rule mset_completion_order)
  with mset_concat_spawned[OF assms] show ?thesis by simp
qed

lemma pool_dict_get:
  assumes "0 < n" and "spawn_workers files n = Inr ws"
  shows "mset (dict_get (merge_results (map (partial_result fs kws) (completion_order picks ws))) k) =
         mset (concat (map (file_hits fs kws k) files))"
  using mset_concat_map_cong[OF mset_concat_delivered[OF assms]]
  by (simp add: dict_get_pool)

lemma pool_keys:
  assumes "0 < n" and "spawn_workers files n = Inr ws"
  shows "k \<in> dict_keys (merge_results (map (partial_result fs kws) (completion_order picks ws))) \<longleftrightarrow>
         concat (map (file_hits fs kws k) files) \<noteq> []"
  using mset_eq_Nil_iff[OF mset_concat_map_cong[OF mset_concat_delivered[OF assms],
                           of "file_hits fs kws k" picks]]
  by (simp add: keys_pool)

lemma pool_diags:
  assumes "0 < n" and "spawn_workers files n = Inr ws"
  shows "mset (concat (map (partial_diags fs kws) (completion_order picks ws))) =
         mset (concat (map (file_diag fs) files))"
  using mset_concat_map_cong[OF mset_concat_delivered[OF assms]]
  by (simp add: diags_pool)

section \<open>Runs with at least one worker\<close>

lemma matches_iff:
  "matches fs k fp \<longleftrightarrow> (\<exists>content pre suf. fs fp = Inr content \<and> content = pre @ k @ suf)"
  by (cases "fs fp") (simp_all add: matches_def contains_iff)

lemma run_multiprocessing_eq_threading:
  "run_multiprocessing fs files kws n picks = run_threading fs files kws n picks"
  by (simp add: run_multiprocessing_eq run_threading_eq)

lemma spawn_workers_total: "\<exists>ws. spawn_workers files n = Inr ws"
proof (cases "0 < n")
  case True
  then show ?thesis by (simp add: spawn_workers_pos)
next
  case False
  then show ?thesis by (simp add: spawn_workers_nonpos)
qed

lemma run_threading_pos:
  assumes "0 < n"
  shows "\<exists>r. run_threading fs files kws n picks = Inr (r, mset (concat (map (file_diag fs) files))) \<and>
           distinct (map fst r) \<and>
           (\<forall>k. mset (dict_get r k) = mset (concat (map (file_hits fs kws k) files))) \<and>
           (\<forall>k. (k \<in> dict_keys r) = (concat (map (file_hits fs kws k) files) \<noteq> []))"
proof -
  from spawn_workers_total obtain ws where ws: "spawn_workers files n = Inr ws" by blast
  let ?r = "merge_results (map (partial_result fs kws) (completion_order picks ws))"
  have "run_threading fs files kws n picks = Inr (?r, mset (concat (map (file_diag fs) files)))"
    by (simp add: run_threading_eq ws pool_diags[OF assms ws])
  moreover have "distinct (map fst ?r)" by (rule distinct_merge_results)
  moreover have "\<forall>k. mset (dict_get ?r k) = mset (concat (map (file_hits fs kws k) files))"
    by (simp add: pool_dict_get[OF assms ws])
  moreover have "\<forall>k. (k \<in> dict_keys ?r) = (concat (map (file_hits fs kws k) files) \<noteq> [])"
    by (simp add: pool_keys[OF assms ws])
  ultimately show ?thesis by blast
qed

lemma filter_eq_distinct:
  "distinct xs \<Longrightarrow> filter (\<lambda>x. x = k \<and> P x) xs = (if k \<in> set xs \<and> P k then [k] else [])"
  by (induction xs) auto

lemma file_hits_distinct:
  "distinct kws \<Longrightarrow>
   file_hits fs kws k fp = (if k \<in> set kws \<and> matches fs k fp then [fp] else [])"
  by (cases "fs fp") (simp_all add: file_hits_def matches_def filter_eq_distinct)

lemma concat_map_if: "concat (map (\<lambda>x. if P x then [x] else []) xs) = filter P xs"
  by (induction xs) simp_all

lemma all_hits_distinct:
  "distinct kws \<Longrightarrow>
   concat (map (file_hits fs kws k) files) =
     (if k \<in> set kws then filter (matches fs k) files else [])"
proof -
  assume d: "distinct kws"
  have "file_hits fs kws k = (\<lambda>fp. if k \<in> set kws \<and> matches fs k fp then [fp] else [])"
    by (rule ext) (rule file_hits_distinct[OF d])
  then show ?thesis
    by (cases "k \<in> set kws") (simp_all add: concat_map_if)
qed

lemma run_eq_threading: "run s fs files kws n picks = run_threading fs files kws n picks"
  by (cases s) (simp_all add: run_def run_multiprocessing_eq_threading)

lemma run_pos:
  assumes "0 < n"
  shows "\<exists>r. run s fs files kws n picks = Inr (r, mset (concat (map (file_diag fs) files))) \<and>
           distinct (map fst r) \<and>
           (\<forall>k. mset (dict_get r k) = mset (concat (map (file_hits fs kws k) files))) \<and>
           (\<forall>k. (k \<in> dict_keys r) = (concat (map (file_hits fs kws k) files) \<noteq> []))"
  unfolding run_eq_threading by (rule run_threading_pos[OF assms])

lemma file_diag_Inl: "fs fp = Inl e \<Longrightarrow> file_diag fs fp = [failure_diag fp e]"
  by (cases e) (simp_all add: file_diag_def failure_diag_def)

lemma file_diag_Inr: "fs fp = Inr c \<Longrightarrow> file_diag fs fp = []"
  by (simp add: file_diag_def)

lemma set_file_hits: "x \<in> set (file_hits fs kws k fp) \<Longrightarrow> x = fp \<and> (\<exists>c. fs fp = Inr c)"
  by (cases "fs fp") (auto simp: file_hits_Inr file_hits_Inl)

lemma unreadable_not_hit:
  "fs bad = Inl e \<Longrightarrow> bad \<notin> set (concat (map (file_hits fs kws k) files))"
proof
  assume b: "fs bad = Inl e" and "bad \<in> set (concat (map (file_hits fs kws k) files))"
  then obtain fp where "bad \<in> set (file_hits fs kws k fp)" by auto
  from set_file_hits[OF this] b show False by auto
qed

lemma hits_without_unreadable:
  "fs bad = Inl e \<Longrightarrow>
   concat (map (file_hits fs kws k) (filter (\<lambda>fp. fp \<noteq> bad) files)) =
   concat (map (file_hits fs kws k) files)"
  by (induction files) (simp_all add: file_hits_Inl)

lemma fst_scan_files_out:
  "fst (scan_files fs kws files (d, out)) = fst (scan_files fs kws files (d, out'))"
proof (induction files arbitrary: d out out')
  case Nil
  show ?case by simp
next
  case (Cons fp files)
  show ?case unfolding scan_files_step by (rule Cons.IH)
qed

lemma scan_files_without_unreadable:
  "fs bad = Inl e \<Longrightarrow>
   fst (scan_files fs kws (filter (\<lambda>fp. fp \<noteq> bad) files) (d, out)) =
   fst (scan_files fs kws files (d, out))"
proof (induction files arbitrary: d out)
  case Nil
  show ?case by simp
next
  case (Cons fp files)
  show ?case
  proof (cases "fp = bad")
    case True
    have "fst (scan_files fs kws (fp # files) (d, out)) =
          fst (scan_files fs kws files (d, out @ file_diag fs fp))"
      unfolding scan_files_step using True Cons.prems by (simp del: scan_files.simps)
    also have "\<dots> = fst (scan_files fs kws files (d, out))"
      by (rule fst_scan_files_out)
    finally show ?thesis using True Cons.IH[OF Cons.prems] by simp
  next
    case False
    then show ?thesis
      by (simp del: scan_files.simps add: scan_files_step Cons.IH[OF Cons.prems])
  qed
qed

lemma diag_of_unreadable:
  "fs bad = Inl e \<Longrightarrow> bad \<in> set files \<Longrightarrow>
   failure_diag bad e \<in> set (concat (map (file_diag fs) files))"
  by (induction files) (auto simp: file_diag_Inl)

lemma scenario_run_1:
  "run_threading scenario_fs scenario_files scenario_keywords 1 [] =
     Inr ([(''apple'', [''f1.txt'', ''f3.txt'']), (''banana'', [''f2.txt'', ''f3.txt''])], {#})"
  by code_simp

lemma scenario_run_3:
  "run_threading scenario_fs scenario_files scenario_keywords 3 [2, 1] =
     Inr ([(''apple'', [''f3.txt'', ''f1.txt'']), (''banana'', [''f3.txt'', ''f2.txt''])], {#})"
  by code_simp

lemma count_list_map_Pair:
  "count_list (map (Pair k') vs) (k, f) = (if k = k' then count_list vs f else 0)"
  by (induction vs) auto

lemma count_dict_pairs:
  "distinct (map fst d) \<Longrightarrow> count_list (dict_pairs d) (k, f) = count_list (dict_get d k) f"
proof (induction d)
  case Nil
  show ?case by (simp add: dict_pairs_def dict_get_def)
next
  case (Cons p d)
  obtain k' vs where p: "p = (k', vs)" by (cases p)
  from Cons.prems p have nk: "k' \<notin> dict_keys d" and dd: "distinct (map fst d)"
    by (simp_all add: dict_keys_def)
  have pairs: "dict_pairs (p # d) = map (Pair k') vs @ dict_pairs d"
    by (simp add: dict_pairs_def p)
  have get: "dict_get (p # d) k = (if k = k' then vs else dict_get d k)"
    by (simp add: p dict_get_def)
  show ?case
  proof (cases "k = k'")
    case True
    with nk have e: "dict_get d k' = []" by (simp add: dict_get_no_key)
    have g': "dict_get (p # d) k' = vs" by (simp add: p dict_get_def)
    from Cons.IH[OF dd] True e show ?thesis
      by (simp add: pairs g' count_list_map_Pair)
  next
    case False
    with Cons.IH[OF dd] show ?thesis
      by (simp add: pairs get count_list_map_Pair)
  qed
qed

lemma count_list_filter_distinct:
  "distinct xs \<Longrightarrow> count_list (filter P xs) x = (if x \<in> set xs \<and> P x then 1 else 0)"
  by (induction xs) auto

lemma scenario_run_2:
  "run_threading scenario_fs scenario_files scenario_keywords 2 [1] =
     Inr ([(''banana'', [''f2.txt'', ''f3.txt'']), (''apple'', [''f1.txt'', ''f3.txt''])], {#})"
  by code_simp

lemma scenario_no_diag: "concat (map (file_diag scenario_fs) scenario_files) = []"
  by code_simp

lemma scenario_distinct_keywords: "distinct scenario_keywords"
  by (simp add: scenario_keywords_def)

lemma scenario_hits_apple:
  "concat (map (file_hits scenario_fs scenario_keywords ''apple'') scenario_files) =
     [''f1.txt'', ''f3.txt'']"
  by code_simp

lemma scenario_hits_banana:
  "concat (map (file_hits scenario_fs scenario_keywords ''banana'') scenario_files) =
     [''f2.txt'', ''f3.txt'']"
  by code_simp

lemma scenario_hits_kiwi:
  "concat (map (file_hits scenario_fs scenario_keywords ''kiwi'') scenario_files) = []"
  by code_simp

lemma scenario_hits_other:
  "k \<notin> set scenario_keywords \<Longrightarrow>
   concat (map (file_hits scenario_fs scenario_keywords k) scenario_files) = []"
  by (simp add: all_hits_distinct[OF scenario_distinct_keywords])

lemma spawn_loop_range:
  "length file_chunks = nat n \<Longrightarrow>
   spawn_loop file_chunks (py_range n) [] = Inr (filter (\<lambda>c. c \<noteq> []) file_chunks)"
  using spawn_loop_all[of file_chunks] by (simp add: py_range_def)

section \<open>The partitioner\<close>

text \<open>
  Claim C2. For every list of files and every \<open>n \<ge> 1\<close>, \<^verbatim>\<open>chunkify\<close> returns exactly \<open>n\<close>
  partitions. The file at input index \<open>i\<close> is in partition \<open>i mod n\<close> (at position
  \<open>i div n\<close>); partition \<open>j\<close> is exactly the files at the indices congruent to \<open>j\<close>, in
  input order (\<open>nths\<close> keeps the order, and the partition is a subsequence of the input).
  The partitions together hold every input file as often as the input does: nothing is
  dropped or duplicated, and when the input has no repeated path no path is in two
  partitions.
\<close>

theorem chunkify_round_robin_cover:
  assumes "1 \<le> n"
  shows "\<exists>chunks. chunkify files n = Inr chunks \<and> length chunks = nat n \<and>
           (\<forall>i<length files. i div nat n < length (chunks ! (i mod nat n)) \<and>
                             chunks ! (i mod nat n) ! (i div nat n) = files ! i) \<and>
           (\<forall>j<nat n. chunks ! j = nths files {i. i mod nat n = j} \<and> subseq (chunks ! j) files) \<and>
           mset (concat chunks) = mset files \<and>
           (distinct files \<longrightarrow> distinct (concat chunks))"
proof -
  let ?chunks = "map (\<lambda>j. nths files {i. i mod nat n = j}) [0..<nat n]"
  from assms have n: "0 < n" and nn: "0 < nat n" by simp_all
  have c: "chunkify files n = Inr ?chunks" by (rule chunkify_pos[OF n])
  have l: "length ?chunks = nat n" by simp
  have idx: "\<forall>i<length files. i div nat n < length (?chunks ! (i mod nat n)) \<and>
                             ?chunks ! (i mod nat n) ! (i div nat n) = files ! i"
    using nn by (simp add: nth_round_robin)
  have part: "\<forall>j<nat n. ?chunks ! j = nths files {i. i mod nat n = j} \<and> subseq (?chunks ! j) files"
    by (auto simp: subseq_conv_nths)
  have m: "mset (concat ?chunks) = mset files" by (rule mset_concat_round_robin[OF nn])
  from m have d: "distinct files \<longrightarrow> distinct (concat ?chunks)"
    by (metis mset_eq_imp_distinct_iff)
  from c l idx part m d show ?thesis by blast
qed

theorem chunkify_round_robin_cover_witness:
  "(1::int) \<le> 2 \<and>
   (\<exists>chunks. chunkify [''a'', ''b'', ''c''] 2 = Inr chunks \<and> chunks = [[''a'', ''c''], [''b'']] \<and>
      length chunks = nat 2 \<and> mset (concat chunks) = mset [''a'', ''b'', ''c''])"
proof -
  have h: "(1::int) \<le> 2" by simp
  from chunkify_round_robin_cover[OF h, of "[''a'', ''b'', ''c'']"]
  obtain chunks where c: "chunkify [''a'', ''b'', ''c''] 2 = Inr chunks"
    and l: "length chunks = nat 2"
    and m: "mset (concat chunks) = mset [''a'', ''b'', ''c'']"
    by blast
  have "chunkify [''a'', ''b'', ''c''] 2 = Inr [[''a'', ''c''], [''b'']]"
    by (simp add: chunkify_def py_range_def slice_from_step_def upt_rec numeral_2_eq_2)
  with c have "chunks = [[''a'', ''c''], [''b'']]" by simp
  with h c l m show ?thesis by blast
qed

section \<open>A worker count below one\<close>

text \<open>
  Claim C10. With a worker count below 1 (0 or negative) \<^verbatim>\<open>range\<close> is empty: \<^verbatim>\<open>chunkify\<close>
  returns no partition and raises nothing, no worker is started, and both
  \<^verbatim>\<open>run_threading\<close> and \<^verbatim>\<open>run_multiprocessing\<close> return the empty dictionary, with nothing
  printed by a worker, for every file list, keyword list and schedule.
\<close>

theorem worker_count_below_one_returns_empty:
  assumes "n < 1"
  shows "chunkify files n = Inr [] \<and> spawn_workers files n = Inr [] \<and>
         run_threading fs files keywords n picks = Inr ([], {#}) \<and>
         run_multiprocessing fs files keywords n picks = Inr ([], {#})"
proof -
  from assms have n: "n \<le> 0" by simp
  have "completion_order picks ([] :: file_path list list) = []"
    by (cases picks) simp_all
  then show ?thesis
    by (simp add: chunkify_nonpos[OF n] spawn_workers_nonpos[OF n] run_threading_eq
                  run_multiprocessing_eq merge_results_def)
qed

theorem worker_count_below_one_returns_empty_witness:
  "(0::int) < 1 \<and>
   run_threading (\<lambda>p. Inr ''apple pie'') [''f1.txt'', ''f2.txt''] [''apple''] 0 [] = Inr ([], {#}) \<and>
   run_multiprocessing (\<lambda>p. Inr ''apple pie'') [''f1.txt'', ''f2.txt''] [''apple''] 0 [] = Inr ([], {#})"
proof -
  have h: "(0::int) < 1" by simp
  from worker_count_below_one_returns_empty[OF h] show ?thesis by simp
qed

section \<open>The aggregator\<close>

text \<open>
  Claim C5. \<^verbatim>\<open>merge_results\<close> is a left fold over the partial results in the order received:
  merging one more partial is \<open>merge_items\<close> applied to the result so far. For partial
  results that are dictionaries (no key twice), the list under each keyword is the
  concatenation, in merge order, of the lists the partials hold under that keyword, so
  every (keyword, file) pair keeps its multiplicity and nothing is deduplicated; the keys
  are exactly the keys of the partials, each once.
\<close>

theorem merge_results_left_fold_concat:
  assumes "\<forall>r\<in>set partials. distinct (map fst r)"
  shows "merge_results [] = [] \<and>
         merge_results (partials @ [res]) = merge_items res (merge_results partials) \<and>
         distinct (map fst (merge_results partials)) \<and>
         dict_keys (merge_results partials) = (\<Union>r\<in>set partials. dict_keys r) \<and>
         (\<forall>k. dict_get (merge_results partials) k = concat (map (\<lambda>r. dict_get r k) partials)) \<and>
         (\<forall>k. mset (dict_get (merge_results partials) k) = (\<Sum>r\<leftarrow>partials. mset (dict_get r k)))"
proof -
  have g: "\<forall>k. dict_get (merge_results partials) k = concat (map (\<lambda>r. dict_get r k) partials)"
    by (simp add: dict_get_merge_results[OF assms])
  then have "\<forall>k. mset (dict_get (merge_results partials) k) = (\<Sum>r\<leftarrow>partials. mset (dict_get r k))"
    by (simp add: mset_concat comp_def)
  with g show ?thesis
    by (simp add: merge_results_def distinct_fold_merge keys_fold_merge dict_keys_Nil)
qed

theorem merge_results_left_fold_concat_witness:
  "distinct (map fst [(''a'', [''f1''])]) \<and>
   distinct (map fst [(''b'', [''f2'']), (''a'', [''f1'', ''f3''])]) \<and>
   merge_results [[(''a'', [''f1''])], [(''b'', [''f2'']), (''a'', [''f1'', ''f3''])]] =
     [(''a'', [''f1'', ''f1'', ''f3'']), (''b'', [''f2''])] \<and>
   dict_get (merge_results [[(''a'', [''f1''])], [(''b'', [''f2'']), (''a'', [''f1'', ''f3''])]]) ''a'' =
     concat (map (\<lambda>r. dict_get r ''a'') [[(''a'', [''f1''])], [(''b'', [''f2'']), (''a'', [''f1'', ''f3''])]])"
proof -
  let ?ps = "[[(''a'', [''f1''])], [(''b'', [''f2'']), (''a'', [''f1'', ''f3''])]]"
  have h: "\<forall>r\<in>set ?ps. distinct (map fst r)" by simp
  from merge_results_left_fold_concat[OF h]
  have g: "dict_get (merge_results ?ps) ''a'' = concat (map (\<lambda>r. dict_get r ''a'') ?ps)"
    by blast
  have "merge_results ?ps = [(''a'', [''f1'', ''f1'', ''f3'']), (''b'', [''f2''])]"
    by (simp add: merge_results_def dict_extend_def dict_get_def)
  with h g show ?thesis by simp
qed

section \<open>The scanner\<close>

text \<open>
  Claim C3. For a partition and a set of keywords (a keyword list without repetition),
  the list the scanner returns under keyword \<open>k\<close> is the partition filtered, in partition
  order, by "the file was read and its content is \<open>pre @ k @ suf\<close> for some \<open>pre\<close> and
  \<open>suf\<close>": exact substring containment on the whole content, characters compared as they
  are. A word that is not a keyword has no list, and a keyword has an entry exactly when
  some file of the partition contains it.
\<close>

theorem scanner_exact_substring_in_partition_order:
  assumes "distinct keywords"
  shows "dict_get (fst (search_keywords_in_files fs files keywords q)) k =
           (if k \<in> set keywords
            then filter (\<lambda>fp. \<exists>content pre suf. fs fp = Inr content \<and> content = pre @ k @ suf) files
            else []) \<and>
         (k \<in> dict_keys (fst (search_keywords_in_files fs files keywords q)) \<longleftrightarrow>
            k \<in> set keywords \<and>
            (\<exists>fp\<in>set files. \<exists>content pre suf. fs fp = Inr content \<and> content = pre @ k @ suf)) \<and>
         distinct (map fst (fst (search_keywords_in_files fs files keywords q)))"
proof -
  have r: "fst (search_keywords_in_files fs files keywords q) = partial_result fs keywords files"
    by (simp add: search_keywords_in_files_eq)
  have m: "matches fs k = (\<lambda>fp. \<exists>content pre suf. fs fp = Inr content \<and> content = pre @ k @ suf)"
    by (rule ext) (rule matches_iff)
  have g: "dict_get (partial_result fs keywords files) k =
           (if k \<in> set keywords then filter (matches fs k) files else [])"
    by (simp add: dict_get_partial_result all_hits_distinct[OF assms])
  have "k \<in> dict_keys (partial_result fs keywords files) \<longleftrightarrow>
          k \<in> set keywords \<and> (\<exists>fp\<in>set files. matches fs k fp)"
    by (simp add: keys_partial_result all_hits_distinct[OF assms] filter_empty_conv)
  with g show ?thesis
    unfolding r m by (simp add: distinct_partial_result)
qed

theorem scanner_exact_substring_in_partition_order_witness:
  "distinct scenario_keywords \<and>
   dict_get (fst (search_keywords_in_files scenario_fs scenario_files scenario_keywords None))
     ''apple'' = [''f1.txt'', ''f3.txt''] \<and>
   filter (\<lambda>fp. \<exists>content pre suf. scenario_fs fp = Inr content \<and> content = pre @ ''apple'' @ suf)
     scenario_files = [''f1.txt'', ''f3.txt'']"
proof -
  have h: "distinct scenario_keywords" by (simp add: scenario_keywords_def)
  have k: "''apple'' \<in> set scenario_keywords" by (simp add: scenario_keywords_def)
  from scanner_exact_substring_in_partition_order[OF h, of scenario_fs scenario_files None "''apple''"]
  have a: "dict_get (fst (search_keywords_in_files scenario_fs scenario_files scenario_keywords None))
             ''apple'' =
           filter (\<lambda>fp. \<exists>content pre suf. scenario_fs fp = Inr content \<and> content = pre @ ''apple'' @ suf)
             scenario_files"
    using k by simp
  have b: "dict_get (fst (search_keywords_in_files scenario_fs scenario_files scenario_keywords None))
             ''apple'' = [''f1.txt'', ''f3.txt'']"
    by code_simp
  from h a b show ?thesis by simp
qed

section \<open>Unreadable files\<close>

text \<open>
  Claim C6. A file whose read fails (\<open>fs bad = Inl e\<close>: an \<^verbatim>\<open>OSError\<close> or any other exception,
  such as a decoding failure) is in no keyword's list, the scanner prints the line for it,
  and the scanner's dictionary is the one it computes on the partition without that
  file. In a run of either strategy with at least one worker the file is in no keyword's
  list of the final result, its line is among the lines printed, and the final result has
  the same keywords and, per keyword, the same files as a run on the input without it.
\<close>

theorem unreadable_file_skipped_and_reported:
  assumes "fs bad = Inl e" and "1 \<le> n"
  shows "bad \<notin> set (dict_get (fst (search_keywords_in_files fs files kws q)) k) \<and>
         fst (search_keywords_in_files fs (filter (\<lambda>fp. fp \<noteq> bad) files) kws q) =
           fst (search_keywords_in_files fs files kws q) \<and>
         (bad \<in> set files \<longrightarrow>
            failure_diag bad e \<in> set (fst (snd (search_keywords_in_files fs files kws q)))) \<and>
         (\<exists>r printed r' printed'.
            run s fs files kws n picks = Inr (r, printed) \<and>
            run s fs (filter (\<lambda>fp. fp \<noteq> bad) files) kws n picks' = Inr (r', printed') \<and>
            bad \<notin> set (dict_get r k) \<and>
            (bad \<in> set files \<longrightarrow> failure_diag bad e \<in># printed) \<and>
            dict_keys r = dict_keys r' \<and>
            (\<forall>k'. mset (dict_get r k') = mset (dict_get r' k')))"
proof -
  from assms(2) have n: "0 < n" by simp
  have "dict_get (fst (search_keywords_in_files fs files kws q)) k =
        concat (map (file_hits fs kws k) files)"
    by (simp add: search_keywords_in_files_eq dict_get_partial_result)
  then have a: "bad \<notin> set (dict_get (fst (search_keywords_in_files fs files kws q)) k)"
    using unreadable_not_hit[where fs=fs and bad=bad, OF assms(1), of kws k files]
    by metis
  have b: "fst (search_keywords_in_files fs (filter (\<lambda>fp. fp \<noteq> bad) files) kws q) =
           fst (search_keywords_in_files fs files kws q)"
    by (simp add: search_keywords_in_files_eq partial_result_scan
                  scan_files_without_unreadable[where fs=fs and bad=bad, OF assms(1)])
  have "fst (snd (search_keywords_in_files fs files kws q)) = concat (map (file_diag fs) files)"
    by (simp add: search_keywords_in_files_eq partial_diags_eq)
  then have c: "bad \<in> set files \<longrightarrow>
           failure_diag bad e \<in> set (fst (snd (search_keywords_in_files fs files kws q)))"
    using diag_of_unreadable[where fs=fs and bad=bad, OF assms(1), of files]
    by metis
  from run_pos[OF n, of s fs files kws picks] obtain r where
    r: "run s fs files kws n picks = Inr (r, mset (concat (map (file_diag fs) files)))"
    and rg: "\<forall>k. mset (dict_get r k) = mset (concat (map (file_hits fs kws k) files))"
    and rk: "\<forall>k. (k \<in> dict_keys r) = (concat (map (file_hits fs kws k) files) \<noteq> [])"
    by blast
  from run_pos[OF n, of s fs "filter (\<lambda>fp. fp \<noteq> bad) files" kws picks'] obtain r' where
    r': "run s fs (filter (\<lambda>fp. fp \<noteq> bad) files) kws n picks' =
           Inr (r', mset (concat (map (file_diag fs) (filter (\<lambda>fp. fp \<noteq> bad) files))))"
    and rg': "\<forall>k. mset (dict_get r' k) = mset (concat (map (file_hits fs kws k) files))"
    and rk': "\<forall>k. (k \<in> dict_keys r') = (concat (map (file_hits fs kws k) files) \<noteq> [])"
    unfolding hits_without_unreadable[where fs=fs and bad=bad, OF assms(1)] by blast
  have "set (dict_get r k) = set (concat (map (file_hits fs kws k) files))"
    using rg by (metis set_mset_mset)
  then have d: "bad \<notin> set (dict_get r k)"
    using unreadable_not_hit[where fs=fs and bad=bad, OF assms(1), of kws k files]
    by metis
  have e: "bad \<in> set files \<longrightarrow> failure_diag bad e \<in># mset (concat (map (file_diag fs) files))"
    using diag_of_unreadable[where fs=fs and bad=bad, OF assms(1), of files]
    by (metis set_mset_mset)
  have f: "dict_keys r = dict_keys r'"
    using rk rk' by blast
  have g: "\<forall>k'. mset (dict_get r k') = mset (dict_get r' k')"
    using rg rg' by simp
  from a b c r r' d e f g show ?thesis by blast
qed

theorem unreadable_file_skipped_and_reported_witness:
  "scenario_fs ''f4.txt'' = Inl (OSError ''No such file or directory'') \<and> (1::int) \<le> 2 \<and>
   ''f4.txt'' \<notin> set (dict_get (fst (search_keywords_in_files scenario_fs
       [''f1.txt'', ''f4.txt'', ''f3.txt''] scenario_keywords None)) ''apple'') \<and>
   ReadErrorMsg ''f4.txt'' ''No such file or directory'' \<in>
     set (fst (snd (search_keywords_in_files scenario_fs
       [''f1.txt'', ''f4.txt'', ''f3.txt''] scenario_keywords None))) \<and>
   (\<exists>r printed.
      run Threads scenario_fs [''f1.txt'', ''f4.txt'', ''f3.txt''] scenario_keywords 2 [] =
        Inr (r, printed) \<and>
      ''f4.txt'' \<notin> set (dict_get r ''apple'') \<and>
      ReadErrorMsg ''f4.txt'' ''No such file or directory'' \<in># printed)"
proof -
  have h1: "scenario_fs ''f4.txt'' = Inl (OSError ''No such file or directory'')"
    by (simp add: scenario_fs_def)
  have h2: "(1::int) \<le> 2" by simp
  have m: "''f4.txt'' \<in> set [''f1.txt'', ''f4.txt'', ''f3.txt'']" by simp
  have d: "failure_diag ''f4.txt'' (OSError ''No such file or directory'') =
           ReadErrorMsg ''f4.txt'' ''No such file or directory''"
    by (simp add: failure_diag_def)
  from unreadable_file_skipped_and_reported[where fs=scenario_fs and bad="''f4.txt''", OF h1 h2,
         of "[''f1.txt'', ''f4.txt'', ''f3.txt'']" scenario_keywords None "''apple''" Threads "[]" "[]"]
  show ?thesis
    unfolding d using h1 h2 m by blast
qed

section \<open>Independence of the worker count\<close>

text \<open>
  Claim C1. For every file list and keyword list, every two worker counts \<open>n1, n2 \<ge> 1\<close>
  (equal or different), either strategy and every delivery order, the two runs return
  final results with the same keyword set and, for each keyword, the same multiset of
  files; they also print the same lines. With \<open>n1 = 1\<close> this compares the sequential run
  with any parallel run.
\<close>

theorem worker_count_does_not_change_content:
  assumes "1 \<le> n1" and "1 \<le> n2"
  shows "\<exists>r1 p1 r2 p2.
           run s1 fs files kws n1 picks1 = Inr (r1, p1) \<and>
           run s2 fs files kws n2 picks2 = Inr (r2, p2) \<and>
           dict_keys r1 = dict_keys r2 \<and>
           (\<forall>k. mset (dict_get r1 k) = mset (dict_get r2 k)) \<and>
           p1 = p2"
proof -
  from assms have n: "0 < n1" "0 < n2" by simp_all
  from run_pos[OF n(1), of s1 fs files kws picks1] obtain r1 where
    r1: "run s1 fs files kws n1 picks1 = Inr (r1, mset (concat (map (file_diag fs) files)))"
    and g1: "\<forall>k. mset (dict_get r1 k) = mset (concat (map (file_hits fs kws k) files))"
    and k1: "\<forall>k. (k \<in> dict_keys r1) = (concat (map (file_hits fs kws k) files) \<noteq> [])"
    by blast
  from run_pos[OF n(2), of s2 fs files kws picks2] obtain r2 where
    r2: "run s2 fs files kws n2 picks2 = Inr (r2, mset (concat (map (file_diag fs) files)))"
    and g2: "\<forall>k. mset (dict_get r2 k) = mset (concat (map (file_hits fs kws k) files))"
    and k2: "\<forall>k. (k \<in> dict_keys r2) = (concat (map (file_hits fs kws k) files) \<noteq> [])"
    by blast
  have "dict_keys r1 = dict_keys r2" using k1 k2 by blast
  moreover have "\<forall>k. mset (dict_get r1 k) = mset (dict_get r2 k)" using g1 g2 by simp
  ultimately show ?thesis using r1 r2 by blast
qed

theorem worker_count_does_not_change_content_witness:
  "(1::int) \<le> 1 \<and> (1::int) \<le> 3 \<and>
   (\<exists>r1 p1 r2 p2.
      run Threads scenario_fs scenario_files scenario_keywords 1 [] = Inr (r1, p1) \<and>
      run Processes scenario_fs scenario_files scenario_keywords 3 [2, 1] = Inr (r2, p2) \<and>
      r1 = [(''apple'', [''f1.txt'', ''f3.txt'']), (''banana'', [''f2.txt'', ''f3.txt''])] \<and>
      r2 = [(''apple'', [''f3.txt'', ''f1.txt'']), (''banana'', [''f3.txt'', ''f2.txt''])] \<and>
      dict_keys r1 = dict_keys r2 \<and>
      (\<forall>k. mset (dict_get r1 k) = mset (dict_get r2 k)))"
proof -
  have h1: "(1::int) \<le> 1" and h3: "(1::int) \<le> 3" by simp_all
  from worker_count_does_not_change_content[OF h1 h3,
         of Threads scenario_fs scenario_files scenario_keywords "[]" Processes "[2, 1]"]
  obtain r1 p1 r2 p2 where
    a: "run Threads scenario_fs scenario_files scenario_keywords 1 [] = Inr (r1, p1)"
    and b: "run Processes scenario_fs scenario_files scenario_keywords 3 [2, 1] = Inr (r2, p2)"
    and c: "dict_keys r1 = dict_keys r2"
    and d: "\<forall>k. mset (dict_get r1 k) = mset (dict_get r2 k)"
    by blast
  from a have "r1 = [(''apple'', [''f1.txt'', ''f3.txt'']), (''banana'', [''f2.txt'', ''f3.txt''])]"
    unfolding run_eq_threading scenario_run_1 by simp
  moreover from b have
    "r2 = [(''apple'', [''f3.txt'', ''f1.txt'']), (''banana'', [''f3.txt'', ''f2.txt''])]"
    unfolding run_eq_threading scenario_run_3 by simp
  ultimately show ?thesis using h1 h3 a b c d by blast
qed

section \<open>The final result holds exactly the true matches\<close>

text \<open>
  Claim C4. For a run (either strategy, at least one worker, any delivery order) over
  distinct readable files and a set of keywords, the multiset of (keyword, file) pairs of
  the final result is the set of true matches, each once: the pair \<open>(k, fp)\<close> occurs once
  when \<open>k\<close> is a keyword, \<open>fp\<close> an input file and the content of \<open>fp\<close> contains \<open>k\<close>, and
  does not occur otherwise.
\<close>

theorem final_result_pairs_are_the_true_matches:
  assumes "1 \<le> n" and "distinct files" and "distinct kws"
    and "\<forall>fp\<in>set files. \<exists>content. fs fp = Inr content"
  shows "\<exists>r printed.
           run s fs files kws n picks = Inr (r, printed) \<and>
           distinct (map fst r) \<and>
           mset (dict_pairs r) =
             mset_set {(k, fp). k \<in> set kws \<and> fp \<in> set files \<and>
                         (\<exists>content pre suf. fs fp = Inr content \<and> content = pre @ k @ suf)} \<and>
           (\<forall>k fp. count_list (dict_pairs r) (k, fp) =
                      (if k \<in> set kws \<and> fp \<in> set files \<and>
                          (\<exists>content pre suf. fs fp = Inr content \<and> content = pre @ k @ suf)
                       then 1 else 0))"
proof -
  let ?M = "{(k, fp). k \<in> set kws \<and> fp \<in> set files \<and>
                (\<exists>content pre suf. fs fp = Inr content \<and> content = pre @ k @ suf)}"
  from assms(1) have n: "0 < n" by simp
  from run_pos[OF n, of s fs files kws picks] obtain r where
    r: "run s fs files kws n picks = Inr (r, mset (concat (map (file_diag fs) files)))"
    and dr: "distinct (map fst r)"
    and g: "\<forall>k. mset (dict_get r k) = mset (concat (map (file_hits fs kws k) files))"
    by blast
  have c: "count_list (dict_pairs r) (k, fp) = (if (k, fp) \<in> ?M then 1 else 0)" for k fp
  proof -
    have "count_list (dict_pairs r) (k, fp) = count (mset (dict_get r k)) fp"
      by (simp add: count_dict_pairs[OF dr] count_mset)
    also have "\<dots> = count_list (if k \<in> set kws then filter (matches fs k) files else []) fp"
      using g by (simp add: all_hits_distinct[OF assms(3)] count_mset)
    also have "\<dots> = (if (k, fp) \<in> ?M then 1 else 0)"
      by (simp add: count_list_filter_distinct[OF assms(2)] matches_iff)
    finally show ?thesis .
  qed
  have "?M \<subseteq> set kws \<times> set files" by blast
  then have fin: "finite ?M" by (rule finite_subset) simp
  have "mset (dict_pairs r) = mset_set ?M"
  proof (rule multiset_eqI)
    fix x :: "keyword \<times> file_path"
    obtain k fp where x: "x = (k, fp)" by (cases x)
    from c[of k fp] fin show "count (mset (dict_pairs r)) x = count (mset_set ?M) x"
      unfolding x by (simp add: count_mset count_mset_set')
  qed
  moreover have "\<forall>k fp. count_list (dict_pairs r) (k, fp) =
                      (if k \<in> set kws \<and> fp \<in> set files \<and>
                          (\<exists>content pre suf. fs fp = Inr content \<and> content = pre @ k @ suf)
                       then 1 else 0)"
    using c by simp
  ultimately show ?thesis using r dr by blast
qed

theorem final_result_pairs_are_the_true_matches_witness:
  "(1::int) \<le> 2 \<and> distinct scenario_files \<and> distinct scenario_keywords \<and>
   scenario_fs ''f1.txt'' = Inr ''apple pie'' \<and>
   scenario_fs ''f2.txt'' = Inr ''banana split'' \<and>
   scenario_fs ''f3.txt'' = Inr ''apple banana'' \<and>
   (\<exists>r printed.
      run Processes scenario_fs scenario_files scenario_keywords 2 [1] = Inr (r, printed) \<and>
      r = [(''banana'', [''f2.txt'', ''f3.txt'']), (''apple'', [''f1.txt'', ''f3.txt''])] \<and>
      mset_set {(k, fp). k \<in> set scenario_keywords \<and> fp \<in> set scenario_files \<and>
                  (\<exists>content pre suf. scenario_fs fp = Inr content \<and> content = pre @ k @ suf)} =
        {#(''banana'', ''f2.txt''), (''banana'', ''f3.txt''),
          (''apple'', ''f1.txt''), (''apple'', ''f3.txt'')#})"
proof -
  have h1: "(1::int) \<le> 2" by simp
  have h2: "distinct scenario_files" by (simp add: scenario_files_def)
  have h3: "distinct scenario_keywords" by (simp add: scenario_keywords_def)
  have h4: "\<forall>fp\<in>set scenario_files. \<exists>content. scenario_fs fp = Inr content"
    by (simp add: scenario_files_def scenario_fs_def)
  from final_result_pairs_are_the_true_matches[OF h1 h2 h3 h4, of Processes "[1]"]
  obtain r printed where
    a: "run Processes scenario_fs scenario_files scenario_keywords 2 [1] = Inr (r, printed)"
    and b: "mset (dict_pairs r) =
            mset_set {(k, fp). k \<in> set scenario_keywords \<and> fp \<in> set scenario_files \<and>
                        (\<exists>content pre suf. scenario_fs fp = Inr content \<and> content = pre @ k @ suf)}"
    by blast
  from a have r: "r = [(''banana'', [''f2.txt'', ''f3.txt'']), (''apple'', [''f1.txt'', ''f3.txt''])]"
    unfolding run_eq_threading scenario_run_2 by simp
  have "mset (dict_pairs r) =
        {#(''banana'', ''f2.txt''), (''banana'', ''f3.txt''),
          (''apple'', ''f1.txt''), (''apple'', ''f3.txt'')#}"
    unfolding r by (simp add: dict_pairs_def)
  with b have "mset_set {(k, fp). k \<in> set scenario_keywords \<and> fp \<in> set scenario_files \<and>
                  (\<exists>content pre suf. scenario_fs fp = Inr content \<and> content = pre @ k @ suf)} =
        {#(''banana'', ''f2.txt''), (''banana'', ''f3.txt''),
          (''apple'', ''f1.txt''), (''apple'', ''f3.txt'')#}"
    by simp
  moreover have "scenario_fs ''f1.txt'' = Inr ''apple pie''"
    "scenario_fs ''f2.txt'' = Inr ''banana split''"
    "scenario_fs ''f3.txt'' = Inr ''apple banana''"
    by (simp_all add: scenario_fs_def)
  ultimately show ?thesis using h1 h2 h3 a r by blast
qed

section \<open>The concrete scenario\<close>

text \<open>
  Claim C7. With \<^verbatim>\<open>f1.txt\<close> holding "apple pie", \<^verbatim>\<open>f2.txt\<close> "banana split" and \<^verbatim>\<open>f3.txt\<close>
  "apple banana", and the keywords apple, banana and kiwi, a run with 1, 2 or 3 workers,
  of either strategy and with any delivery order, returns without error and prints no
  diagnostic; apple maps to \<^verbatim>\<open>f1.txt\<close> and \<^verbatim>\<open>f3.txt\<close> and banana to \<^verbatim>\<open>f2.txt\<close> and \<^verbatim>\<open>f3.txt\<close>,
  up to the order of each list. The keyword found in no file, kiwi, raises no error: of
  the two outcomes the claim allows for it, the code takes "no entry" (its lookup with
  the empty default is the empty list), so the keys of the result are apple and banana.
\<close>

theorem scenario_three_files_three_keywords:
  assumes "1 \<le> n" and "n \<le> 3"
  shows "\<exists>r. run s scenario_fs scenario_files scenario_keywords n picks = Inr (r, {#}) \<and>
           dict_keys r = {''apple'', ''banana''} \<and>
           mset (dict_get r ''apple'') = {#''f1.txt'', ''f3.txt''#} \<and>
           mset (dict_get r ''banana'') = {#''f2.txt'', ''f3.txt''#} \<and>
           dict_get r ''kiwi'' = [] \<and>
           map_of r ''kiwi'' = None"
proof -
  from assms(1) have n: "0 < n" by simp
  from run_pos[OF n, of s scenario_fs scenario_files scenario_keywords picks] obtain r where
    r: "run s scenario_fs scenario_files scenario_keywords n picks =
          Inr (r, mset (concat (map (file_diag scenario_fs) scenario_files)))"
    and g: "\<forall>k. mset (dict_get r k) =
                mset (concat (map (file_hits scenario_fs scenario_keywords k) scenario_files))"
    and ks: "\<forall>k. (k \<in> dict_keys r) =
                (concat (map (file_hits scenario_fs scenario_keywords k) scenario_files) \<noteq> [])"
    by blast
  have r': "run s scenario_fs scenario_files scenario_keywords n picks = Inr (r, {#})"
    using r by (simp add: scenario_no_diag)
  have a: "mset (dict_get r ''apple'') = {#''f1.txt'', ''f3.txt''#}"
    using g by (simp add: scenario_hits_apple)
  have b: "mset (dict_get r ''banana'') = {#''f2.txt'', ''f3.txt''#}"
    using g by (simp add: scenario_hits_banana)
  have "mset (dict_get r ''kiwi'') = {#}"
    using g by (simp add: scenario_hits_kiwi)
  then have c: "dict_get r ''kiwi'' = []" by simp
  have in_keys: "k \<in> dict_keys r \<longleftrightarrow> k = ''apple'' \<or> k = ''banana''" for k
  proof -
    have eq: "(k \<in> dict_keys r) =
              (concat (map (file_hits scenario_fs scenario_keywords k) scenario_files) \<noteq> [])"
      using ks by blast
    show ?thesis
    proof (cases "k \<in> set scenario_keywords")
      case False
      then have "k \<noteq> ''apple''" "k \<noteq> ''banana''" by (auto simp: scenario_keywords_def)
      then show ?thesis unfolding eq scenario_hits_other[OF False] by simp
    next
      case True
      then consider "k = ''apple''" | "k = ''banana''" | "k = ''kiwi''"
        by (auto simp: scenario_keywords_def)
      then show ?thesis
      proof cases
        case 1
        show ?thesis unfolding eq unfolding 1 scenario_hits_apple by simp
      next
        case 2
        show ?thesis unfolding eq unfolding 2 scenario_hits_banana by simp
      next
        case 3
        show ?thesis unfolding eq unfolding 3 scenario_hits_kiwi by simp
      qed
    qed
  qed
  then have d: "dict_keys r = {''apple'', ''banana''}" by blast
  from in_keys[of "''kiwi''"] have "''kiwi'' \<notin> dict_keys r" by simp
  then have e: "map_of r ''kiwi'' = None"
    by (simp add: dict_keys_def map_of_eq_None_iff)
  from r' a b c d e show ?thesis by blast
qed

theorem scenario_three_files_three_keywords_witness:
  "(1::int) \<le> 2 \<and> (2::int) \<le> 3 \<and>
   (\<exists>r. run Threads scenario_fs scenario_files scenario_keywords 2 [1] = Inr (r, {#}) \<and>
        r = [(''banana'', [''f2.txt'', ''f3.txt'']), (''apple'', [''f1.txt'', ''f3.txt''])] \<and>
        dict_keys r = {''apple'', ''banana''} \<and>
        mset (dict_get r ''apple'') = {#''f1.txt'', ''f3.txt''#} \<and>
        mset (dict_get r ''banana'') = {#''f2.txt'', ''f3.txt''#} \<and>
        dict_get r ''kiwi'' = [])"
proof -
  have h1: "(1::int) \<le> 2" and h2: "(2::int) \<le> 3" by simp_all
  from scenario_three_files_three_keywords[OF h1 h2, of Threads "[1]"] obtain r where
    a: "run Threads scenario_fs scenario_files scenario_keywords 2 [1] = Inr (r, {#})"
    and b: "dict_keys r = {''apple'', ''banana''}"
    and c: "mset (dict_get r ''apple'') = {#''f1.txt'', ''f3.txt''#}"
    and d: "mset (dict_get r ''banana'') = {#''f2.txt'', ''f3.txt''#}"
    and e: "dict_get r ''kiwi'' = []"
    by blast
  from a have "r = [(''banana'', [''f2.txt'', ''f3.txt'']), (''apple'', [''f1.txt'', ''f3.txt''])]"
    unfolding run_eq_threading scenario_run_2 by simp
  with h1 h2 a b c d e show ?thesis by blast
qed

section \<open>Empty partitions\<close>

text \<open>
  Claim C8. In both strategies the spawning loop starts a worker for partition \<open>i\<close> exactly
  when \<^verbatim>\<open>file_chunks[i]\<close> is not empty: the started workers are the non-empty partitions, in
  order, and the run's result is the merge of what those workers deliver. With three
  files and four workers the partitions are three singletons and one empty list, three
  workers are started and none for the fourth partition.
\<close>

theorem workers_spawned_for_nonempty_partitions_only:
  assumes "1 \<le> n"
  shows "\<exists>chunks.
           chunkify files n = Inr chunks \<and>
           spawn_loop chunks (py_range n) [] = Inr (filter (\<lambda>c. c \<noteq> []) chunks) \<and>
           spawn_workers files n = Inr (filter (\<lambda>c. c \<noteq> []) chunks) \<and>
           run s fs files kws n picks =
             Inr (merge_results (map (partial_result fs kws)
                    (completion_order picks (filter (\<lambda>c. c \<noteq> []) chunks))),
                  mset (concat (map (partial_diags fs kws)
                    (completion_order picks (filter (\<lambda>c. c \<noteq> []) chunks))))) \<and>
           chunkify [a, b, c] 4 = Inr [[a], [b], [c], []] \<and>
           spawn_workers [a, b, c] 4 = Inr [[a], [b], [c]]"
proof -
  let ?chunks = "map (\<lambda>j. nths files {i. i mod nat n = j}) [0..<nat n]"
  from assms have n: "0 < n" by simp
  have c: "chunkify files n = Inr ?chunks" by (rule chunkify_pos[OF n])
  have l: "length ?chunks = nat n" by simp
  have sl: "spawn_loop ?chunks (py_range n) [] = Inr (filter (\<lambda>c. c \<noteq> []) ?chunks)"
    by (rule spawn_loop_range[OF l])
  have sw: "spawn_workers files n = Inr (filter (\<lambda>c. c \<noteq> []) ?chunks)"
    by (rule spawn_workers_pos[OF n])
  have r: "run s fs files kws n picks =
             Inr (merge_results (map (partial_result fs kws)
                    (completion_order picks (filter (\<lambda>c. c \<noteq> []) ?chunks))),
                  mset (concat (map (partial_diags fs kws)
                    (completion_order picks (filter (\<lambda>c. c \<noteq> []) ?chunks)))))"
    by (simp add: run_eq_threading run_threading_eq sw)
  have c4: "chunkify [a, b, c] 4 = Inr [[a], [b], [c], []]"
    by (simp add: chunkify_def py_range_def slice_from_step_def upt_rec)
  have s4: "spawn_workers [a, b, c] 4 = Inr [[a], [b], [c]]"
    by (simp add: spawn_workers_def c4 py_range_def upt_rec)
  from c sl sw r c4 s4 show ?thesis by blast
qed

theorem workers_spawned_for_nonempty_partitions_only_witness:
  "(1::int) \<le> 4 \<and>
   (\<exists>chunks. chunkify scenario_files 4 = Inr chunks \<and>
      chunks = [[''f1.txt''], [''f2.txt''], [''f3.txt''], []] \<and>
      spawn_workers scenario_files 4 = Inr (filter (\<lambda>c. c \<noteq> []) chunks) \<and>
      filter (\<lambda>c. c \<noteq> []) chunks = [[''f1.txt''], [''f2.txt''], [''f3.txt'']] \<and>
      length (filter (\<lambda>c. c \<noteq> []) chunks) = 3)"
proof -
  have h: "(1::int) \<le> 4" by simp
  from workers_spawned_for_nonempty_partitions_only[OF h,
         of scenario_files Threads scenario_fs scenario_keywords "[]" "''x''" "''y''" "''z''"]
  obtain chunks where
    a: "chunkify scenario_files 4 = Inr chunks"
    and b: "spawn_workers scenario_files 4 = Inr (filter (\<lambda>c. c \<noteq> []) chunks)"
    by blast
  have "chunkify scenario_files 4 = Inr [[''f1.txt''], [''f2.txt''], [''f3.txt''], []]"
    by code_simp
  with a have c: "chunks = [[''f1.txt''], [''f2.txt''], [''f3.txt''], []]" by simp
  then have d: "filter (\<lambda>c. c \<noteq> []) chunks = [[''f1.txt''], [''f2.txt''], [''f3.txt'']]"
    by simp
  then have "length (filter (\<lambda>c. c \<noteq> []) chunks) = 3" by simp
  with h a b c d show ?thesis by blast
qed

end
